theory Spec2Isabelle
  imports Complex_Main "HOL-Library.Char_ord" "HOL-Library.List_Lexorder" "HOL-Library.Sublist"
begin

section \<open>The expense ledger of kharge.py\<close>

text \<open>
  The program is one Streamlit script around a pandas table. The development models
  what the script computes: the calendar conversion, the load of the persisted file,
  the add and import handlers, the filters and the summaries. Widgets are inputs of the
  functions; messages (\<open>st.success\<close>, \<open>st.warning\<close>, \<open>st.error\<close>) are returned
  as values.

  Conventions of the model:
  \<^item> text is a \<open>string\<close>; its characters are compared by code, and upper and lower case
    are the ASCII ones;
  \<^item> a number is an exact rational (no rounding, no infinities); a missing value
    (pandas' NaN or None) is \<open>Null\<close>;
  \<^item> \<open>pd.read_csv\<close> is outside the model: a file that has been read is a frame whose
    cells are text or missing, and the reading of a text as a number
    (\<open>pd.to_numeric\<close>) is the parameter \<open>numeric\<close> of the functions that need it;
  \<^item> \<open>uuid.uuid4\<close> is outside the model: the identifiers drawn are arguments.
\<close>

subsection \<open>Exceptions and messages\<close>

datatype error =
    CalendarUnavailable
  | InvalidDateFormat
  | MissingDate
  | NonPositiveAmount
  | MissingColumn string
  | NaNToInteger
  | KeyError string
  | TypeError
  | PatternNotModelled


datatype signal = Success | Warning error | Failure error

subsection \<open>Cells, rows and frames\<close>

datatype cell = Null | Num rat | Str string

record 'c frame =
  columns :: "string list"
  rows :: "(string \<rightharpoonup> 'c) list"

type_synonym row = "string \<rightharpoonup> cell"
type_synonym table = "cell frame"
type_synonym csv = "string option frame"

definition expected :: "string list" where
  "expected = [''id'', ''date_jalali'', ''date_gregorian'', ''amount'', ''description'', ''card'']"

definition cell_of :: "row \<Rightarrow> string \<Rightarrow> cell" where
  "cell_of r c = (case r c of None \<Rightarrow> Null | Some v \<Rightarrow> v)"

definition csv_cell :: "(string \<rightharpoonup> string option) \<Rightarrow> string \<Rightarrow> string option" where
  "csv_cell r c = (case r c of None \<Rightarrow> None | Some v \<Rightarrow> v)"

definition is_empty :: "'c frame \<Rightarrow> bool" where
  "is_empty df = (rows df = [] \<or> columns df = [])"

definition column :: "table \<Rightarrow> string \<Rightarrow> error + cell list" where
  "column df c =
     (if c \<in> set (columns df) then Inr (map (\<lambda>r. cell_of r c) (rows df)) else Inl (KeyError c))"

definition set_column :: "string \<Rightarrow> ((string \<rightharpoonup> 'c) \<Rightarrow> 'c) \<Rightarrow> 'c frame \<Rightarrow> 'c frame" where
  "set_column c f df =
     \<lparr>columns = (if c \<in> set (columns df) then columns df else columns df @ [c]),
      rows = map (\<lambda>r. r(c \<mapsto> f r)) (rows df)\<rparr>"

definition select_columns :: "string list \<Rightarrow> 'c frame \<Rightarrow> 'c frame" where
  "select_columns cs df = \<lparr>columns = cs, rows = map (\<lambda>r. r |` set cs) (rows df)\<rparr>"


definition reindex :: "string list \<Rightarrow> row \<Rightarrow> row" where
  "reindex cs r = (\<lambda>c. if c \<in> set cs then Some (cell_of r c) else None)"

definition pd_concat :: "table \<Rightarrow> table \<Rightarrow> table" where
  "pd_concat a b =
     (let cs = columns a @ filter (\<lambda>c. c \<notin> set (columns a)) (columns b)
      in \<lparr>columns = cs, rows = map (reindex cs) (rows a @ rows b)\<rparr>)"

definition DataFrame :: "row list \<Rightarrow> table" where
  "DataFrame records = \<lparr>columns = (if records = [] then [] else expected), rows = records\<rparr>"

fun map_result :: "('a \<Rightarrow> error + 'b) \<Rightarrow> 'a list \<Rightarrow> error + 'b list" where
  "map_result f [] = Inr []"
| "map_result f (x # xs) =
     (case f x of
        Inl e \<Rightarrow> Inl e
      | Inr y \<Rightarrow> (case map_result f xs of Inl e \<Rightarrow> Inl e | Inr ys \<Rightarrow> Inr (y # ys)))"

subsection \<open>Numbers\<close>

definition to_numeric :: "(string \<Rightarrow> rat option) \<Rightarrow> cell \<Rightarrow> rat option" where
  "to_numeric numeric v = (case v of Null \<Rightarrow> None | Num q \<Rightarrow> Some q | Str s \<Rightarrow> numeric s)"

definition fillna0 :: "rat option \<Rightarrow> rat" where
  "fillna0 x = (case x of None \<Rightarrow> 0 | Some q \<Rightarrow> q)"

definition or_zero :: "rat option \<Rightarrow> rat option" where
  "or_zero x = (case x of None \<Rightarrow> None | Some q \<Rightarrow> if q = 0 then Some 0 else Some q)"

definition trunc :: "rat \<Rightarrow> int" where
  "trunc q = (if 0 \<le> q then \<lfloor>q\<rfloor> else \<lceil>q\<rceil>)"

definition py_int :: "rat option \<Rightarrow> error + int" where
  "py_int x = (case x of None \<Rightarrow> Inl NaNToInteger | Some q \<Rightarrow> Inr (trunc q))"

text \<open>
  A reading of decimal numerals, used to run the model on examples: an optional sign,
  digits, and an optional fraction. Every theorem below holds for any reading.
\<close>

definition digit_val :: "char \<Rightarrow> int option" where
  "digit_val c = (if CHR ''0'' \<le> c \<and> c \<le> CHR ''9'' then Some (of_char c - 48) else None)"

fun digits_val :: "int \<Rightarrow> string \<Rightarrow> int option" where
  "digits_val acc [] = Some acc"
| "digits_val acc (c # cs) =
     (case digit_val c of None \<Rightarrow> None | Some d \<Rightarrow> digits_val (10 * acc + d) cs)"

definition unsigned_decimal :: "string \<Rightarrow> rat option" where
  "unsigned_decimal s =
     (let ip = takeWhile (\<lambda>c. c \<noteq> CHR ''.'') s; rest = dropWhile (\<lambda>c. c \<noteq> CHR ''.'') s in
      if ip = [] then None
      else case digits_val 0 ip of
        None \<Rightarrow> None
      | Some i \<Rightarrow>
          (if rest = [] then Some (of_int i)
           else case digits_val 0 (tl rest) of
             None \<Rightarrow> None
           | Some f \<Rightarrow> Some (of_int i + of_int f / 10 ^ length (tl rest))))"

definition decimal :: "string \<Rightarrow> rat option" where
  "decimal s =
     (case s of
        [] \<Rightarrow> None
      | c # cs \<Rightarrow>
          if c = CHR ''-'' then map_option uminus (unsigned_decimal cs)
          else if c = CHR ''+'' then unsigned_decimal cs
          else unsigned_decimal s)"

subsection \<open>The calendar converter\<close>

text \<open>
  Modelled from the spec: the calendar backend, the package jdatetime, which the
  script imports and which is not part of the repository's sources. The spec asks for
  a strict \<open>YYYY-MM-DD\<close> parse, an exact conversion between the Jalali and the
  Gregorian calendar, and a \<open>YYYY-MM-DD\<close> rendering. The conversion is the arithmetic
  one: day numbers counted from 1 Farvardin 979, a 33-year Jalali cycle of 12053 days
  with eight leap years, and the 400-year Gregorian cycle of 146097 days.
\<close>

type_synonym ymd = "int \<times> int \<times> int"

definition j_days_in_month :: "int list" where
  "j_days_in_month = [31, 31, 31, 31, 31, 31, 30, 30, 30, 30, 30, 29]"

definition g_days_in_month :: "int list" where
  "g_days_in_month = [31, 28, 31, 30, 31, 30, 31, 31, 30, 31, 30, 31]"

definition j_isleap :: "int \<Rightarrow> bool" where
  "j_isleap y = (y mod 33 \<in> {1, 5, 9, 13, 17, 22, 26, 30})"

definition g_isleap :: "int \<Rightarrow> bool" where
  "g_isleap gy = ((gy mod 4 = 0 \<and> gy mod 100 \<noteq> 0) \<or> gy mod 400 = 0)"

definition j_valid :: "ymd \<Rightarrow> bool" where
  "j_valid j =
     (case j of (y, m, d) \<Rightarrow>
        1 \<le> y \<and> y \<le> 9377 \<and> 1 \<le> m \<and> m \<le> 12 \<and> 1 \<le> d \<and>
        d \<le> (if m \<le> 6 then 31 else if m \<le> 11 then 30 else if j_isleap y then 30 else 29))"

fun walk_months :: "int list \<Rightarrow> int \<Rightarrow> int \<Rightarrow> int \<times> int" where
  "walk_months [] i n = (i, n)"
| "walk_months (m # ms) i n = (if m \<le> n then walk_months ms (i + 1) (n - m) else (i, n))"

definition j_day_no :: "ymd \<Rightarrow> int" where
  "j_day_no j =
     (case j of (jyear, jmonth, jday) \<Rightarrow>
        let jy = jyear - 979; jm = jmonth - 1; jd = jday - 1 in
        365 * jy + (jy div 33) * 8 + (jy mod 33 + 3) div 4
          + sum_list (take (nat jm) j_days_in_month) + jd)"

definition g_century :: "int \<Rightarrow> int \<Rightarrow> int \<times> int \<times> bool" where
  "g_century gy n =
     (if 36525 \<le> n then
        (let n' = n - 1; gy' = gy + 100 * (n' div 36524); r = n' mod 36524 in
         if 365 \<le> r then (gy', r + 1, True) else (gy', r, False))
      else (gy, n, True))"

definition g_year :: "int \<Rightarrow> int \<Rightarrow> bool \<Rightarrow> int \<times> int \<times> bool" where
  "g_year gy n leap =
     (let gy' = gy + 4 * (n div 1461); r = n mod 1461 in
      if 366 \<le> r then (gy' + (r - 1) div 365, (r - 1) mod 365, False) else (gy', r, leap))"

definition g_of_day_no :: "int \<Rightarrow> ymd" where
  "g_of_day_no day_no =
     (case g_century (1600 + 400 * (day_no div 146097)) (day_no mod 146097) of
        (gy1, n1, leap1) \<Rightarrow>
          (case g_year gy1 n1 leap1 of
             (gy, n, leap) \<Rightarrow>
               (case walk_months (g_days_in_month[1 := (if leap then 29 else 28)]) 0 n of
                  (i, d) \<Rightarrow> (gy, i + 1, d + 1))))"

definition togregorian :: "ymd \<Rightarrow> ymd" where
  "togregorian j = g_of_day_no (j_day_no j + 79)"

definition g_day_no :: "ymd \<Rightarrow> int" where
  "g_day_no g =
     (case g of (gyear, gmonth, gday) \<Rightarrow>
        let gy = gyear - 1600; gm = gmonth - 1; gd = gday - 1 in
        365 * gy + (gy + 3) div 4 - (gy + 99) div 100 + (gy + 399) div 400
          + sum_list (take (nat gm) g_days_in_month)
          + (if 1 < gm \<and> g_isleap gy then 1 else 0) + gd)"

definition j_of_day_no :: "int \<Rightarrow> ymd" where
  "j_of_day_no day_no =
     (let n1 = day_no mod 12053;
          jy1 = 979 + 33 * (day_no div 12053) + 4 * (n1 div 1461);
          n2 = n1 mod 1461
      in case (if 366 \<le> n2 then (jy1 + (n2 - 1) div 365, (n2 - 1) mod 365) else (jy1, n2)) of
           (jy, n) \<Rightarrow>
             (case walk_months (take 11 j_days_in_month) 0 n of
                (i, d) \<Rightarrow> (jy, i + 1, d + 1)))"

definition fromgregorian :: "ymd \<Rightarrow> ymd" where
  "fromgregorian g = j_of_day_no (g_day_no g - 79)"

text \<open>
  The days before a Gregorian year (counted from 1600), and the correction of that count
  inside a 400-year cycle, for the year \<open>100 * c + 4 * a + b\<close> of the cycle.
\<close>

definition g_year_start :: "int \<Rightarrow> int" where
  "g_year_start gy = 365 * gy + (gy + 3) div 4 - (gy + 99) div 100 + (gy + 399) div 400"

definition g_offset :: "int \<Rightarrow> int \<Rightarrow> int \<Rightarrow> int" where
  "g_offset c a b =
     (if 0 < b then 1 else 0) - (if 0 < 4 * a + b then 1 else 0)
       + (if 0 < 100 * c + 4 * a + b then 1 else 0)"

definition digit_char :: "int \<Rightarrow> char" where
  "digit_char n = char_of (48 + n)"

definition pad2 :: "int \<Rightarrow> string" where
  "pad2 n = [digit_char (n div 10 mod 10), digit_char (n mod 10)]"

definition pad4 :: "int \<Rightarrow> string" where
  "pad4 n = pad2 (n div 100) @ pad2 n"

definition isoformat :: "ymd \<Rightarrow> string" where
  "isoformat t = (case t of (y, m, d) \<Rightarrow> pad4 y @ ''-'' @ pad2 m @ ''-'' @ pad2 d)"

definition parse_iso :: "string \<Rightarrow> ymd option" where
  "parse_iso s =
     (if length s = 10 \<and> s ! 4 = CHR ''-'' \<and> s ! 7 = CHR ''-'' then
        (case (digits_val 0 (take 4 s), digits_val 0 (take 2 (drop 5 s)),
               digits_val 0 (drop 8 s)) of
           (Some y, Some m, Some d) \<Rightarrow> Some (y, m, d)
         | _ \<Rightarrow> None)
      else None)"

definition fromisoformat :: "string \<Rightarrow> ymd option" where
  "fromisoformat s =
     (case parse_iso s of
        None \<Rightarrow> None
      | Some j \<Rightarrow> if j_valid j then Some j else None)"

subsection \<open>The helpers of the script\<close>

definition ensure_jdatetime :: "bool \<Rightarrow> error + unit" where
  "ensure_jdatetime jdatetime = (if jdatetime then Inr () else Inl CalendarUnavailable)"

definition jalali_to_gregorian :: "bool \<Rightarrow> string \<Rightarrow> error + ymd" where
  "jalali_to_gregorian jdatetime jalali_str =
     (case ensure_jdatetime jdatetime of
        Inl e \<Rightarrow> Inl e
      | Inr _ \<Rightarrow>
          (case fromisoformat jalali_str of
             None \<Rightarrow> Inl InvalidDateFormat
           | Some jdate \<Rightarrow> Inr (togregorian jdate)))"

definition gregorian_to_jalali :: "bool \<Rightarrow> ymd \<Rightarrow> error + string" where
  "gregorian_to_jalali jdatetime gdate =
     (case ensure_jdatetime jdatetime of
        Inl e \<Rightarrow> Inl e
      | Inr _ \<Rightarrow> Inr (isoformat (fromgregorian gdate)))"

subsection \<open>The ledger store\<close>

text \<open>
  \<open>read_data\<close>, with the file as \<open>pd.read_csv\<close> returns it (\<open>None\<close> when
  \<open>os.path.exists\<close> is false). The cells of a file that has been read are text or
  missing; \<open>frame_of_csv\<close> makes them cells of a table.
\<close>

definition object_cell :: "string option \<Rightarrow> cell" where
  "object_cell v = (case v of None \<Rightarrow> Null | Some s \<Rightarrow> Str s)"

definition frame_of_csv :: "csv \<Rightarrow> table" where
  "frame_of_csv f =
     \<lparr>columns = columns f, rows = map (\<lambda>r c. map_option object_cell (r c)) (rows f)\<rparr>"

definition add_missing :: "string \<Rightarrow> table \<Rightarrow> table" where
  "add_missing col df0 = (if col \<in> set (columns df0) then df0 else set_column col (\<lambda>r. Null) df0)"

definition read_data :: "(string \<Rightarrow> rat option) \<Rightarrow> csv option \<Rightarrow> table" where
  "read_data numeric file =
     (case file of
        Some f \<Rightarrow>
          (let df1 = fold add_missing expected (frame_of_csv f);
               df2 = set_column ''amount''
                       (\<lambda>r. Num (fillna0 (to_numeric numeric (cell_of r ''amount'')))) df1
           in select_columns expected df2)
      | None \<Rightarrow> \<lparr>columns = expected, rows = []\<rparr>)"

text \<open>
  The session: \<open>st.session_state.df\<close>, and what \<open>write_data\<close> last wrote to
  \<open>expenses.csv\<close> during the session (\<open>None\<close> while it has not been called).
\<close>

record session =
  session_df :: table
  disk :: "table option"

definition write_data :: "table \<Rightarrow> session \<Rightarrow> session" where
  "write_data t st = st\<lparr>disk := Some t\<rparr>"

text \<open>Lines 89 and 90: a new session loads the file.\<close>

definition start_session :: "(string \<Rightarrow> rat option) \<Rightarrow> csv option \<Rightarrow> session" where
  "start_session numeric file = \<lparr>session_df = read_data numeric file, disk = None\<rparr>"

subsection \<open>Adding an expense\<close>





subsection \<open>Importing a file\<close>

definition py_str :: "string option \<Rightarrow> string" where
  "py_str v = (case v of None \<Rightarrow> ''nan'' | Some s \<Rightarrow> s)"

definition get_default :: "string \<Rightarrow> csv \<Rightarrow> csv" where
  "get_default c imp =
     set_column c (\<lambda>r. if c \<in> set (columns imp) then csv_cell r c else Some []) imp"

definition import_record ::
  "(string \<Rightarrow> rat option) \<Rightarrow> bool \<Rightarrow> string \<Rightarrow> (string \<rightharpoonup> string option) \<Rightarrow> error + row" where
  "import_record numeric jdatetime uid r =
     (case jalali_to_gregorian jdatetime (py_str (csv_cell r ''date_jalali'')) of
        Inl e \<Rightarrow> Inl e
      | Inr g \<Rightarrow>
          (case py_int (or_zero (to_numeric numeric (object_cell (csv_cell r ''amount'')))) of
             Inl e \<Rightarrow> Inl e
           | Inr n \<Rightarrow>
               Inr [''id'' \<mapsto> Str uid,
                    ''date_jalali'' \<mapsto> Str (py_str (csv_cell r ''date_jalali'')),
                    ''date_gregorian'' \<mapsto> Str (isoformat g),
                    ''amount'' \<mapsto> Num (of_int n),
                    ''description'' \<mapsto> Str (py_str (csv_cell r ''description'')),
                    ''card'' \<mapsto> Str (py_str (csv_cell r ''card''))]))"

fun build_records ::
  "(string \<Rightarrow> rat option) \<Rightarrow> bool \<Rightarrow> (nat \<Rightarrow> string) \<Rightarrow> nat \<Rightarrow>
     (string \<rightharpoonup> string option) list \<Rightarrow> error + row list" where
  "build_records numeric jdatetime uids i [] = Inr []"
| "build_records numeric jdatetime uids i (r # rs) =
     (case import_record numeric jdatetime (uids i) r of
        Inl e \<Rightarrow> Inl e
      | Inr record1 \<Rightarrow>
          (case build_records numeric jdatetime uids (Suc i) rs of
             Inl e \<Rightarrow> Inl e
           | Inr records \<Rightarrow> Inr (record1 # records)))"

definition needed :: "string list" where
  "needed = [''date_jalali'', ''amount'']"

definition import_merge ::
  "(string \<Rightarrow> rat option) \<Rightarrow> bool \<Rightarrow> (nat \<Rightarrow> string) \<Rightarrow> table \<Rightarrow> csv \<Rightarrow> error + table" where
  "import_merge numeric jdatetime uids df0 imp =
     (case filter (\<lambda>c. c \<notin> set (columns imp)) needed of
        c # _ \<Rightarrow> Inl (MissingColumn c)
      | [] \<Rightarrow>
          (let imp1 = get_default ''card'' (get_default ''description'' imp) in
           case build_records numeric jdatetime uids 0 (rows imp1) of
             Inl e \<Rightarrow> Inl e
           | Inr records \<Rightarrow> Inr (pd_concat df0 (DataFrame records))))"

text \<open>
  The upload handler (lines 228 to 257). \<open>df0\<close> is the module-level \<open>df\<close>, bound to
  the session's table at line 93. Every exception of the body is reported by
  \<open>st.error\<close>, and so is a missing calendar backend before the script stops.
\<close>

definition import_csv ::
  "(string \<Rightarrow> rat option) \<Rightarrow> bool \<Rightarrow> (nat \<Rightarrow> string) \<Rightarrow> table \<Rightarrow> session \<Rightarrow> csv \<Rightarrow>
     session \<times> signal" where
  "import_csv numeric jdatetime uids df0 st imp =
     (case import_merge numeric jdatetime uids df0 imp of
        Inl e \<Rightarrow> (st, Failure e)
      | Inr merged \<Rightarrow> (write_data merged (st\<lparr>session_df := merged\<rparr>), Success))"


subsection \<open>Filters\<close>




















subsection \<open>Summaries\<close>

definition amount_value :: "cell \<Rightarrow> error + rat" where
  "amount_value v = (case v of Null \<Rightarrow> Inr 0 | Num q \<Rightarrow> Inr q | Str s \<Rightarrow> Inl TypeError)"

definition series_sum :: "cell list \<Rightarrow> error + rat" where
  "series_sum col = (case map_result amount_value col of Inl e \<Rightarrow> Inl e | Inr vs \<Rightarrow> Inr (sum_list vs))"

definition total_spent :: "table \<Rightarrow> error + int" where
  "total_spent filtered =
     (if is_empty filtered then Inr 0
      else
        (case column filtered ''amount'' of
           Inl e \<Rightarrow> Inl e
         | Inr col \<Rightarrow> (case series_sum col of Inl e \<Rightarrow> Inl e | Inr s \<Rightarrow> Inr (trunc s))))"

text \<open>The label of line 199, as the bytes of its UTF-8 encoding.\<close>

definition unspecified :: string where
  "unspecified =
     [CHR 0xE2, CHR 0x80, CHR 0x94, CHR 0x20, CHR 0xD9, CHR 0x85, CHR 0xD8, CHR 0xB4, CHR 0xD8,
      CHR 0xAE, CHR 0xD8, CHR 0xB5, CHR 0x20, CHR 0xD9, CHR 0x86, CHR 0xD8, CHR 0xB4, CHR 0xD8,
      CHR 0xAF, CHR 0xD9, CHR 0x87, CHR 0x20, CHR 0xE2, CHR 0x80, CHR 0x94]"

definition replace_empty :: "cell \<Rightarrow> cell" where
  "replace_empty v = (if v = Str [] then Str unspecified else v)"

text \<open>
  \<open>groupby(keys)["amount"].sum()\<close>: the rows whose key is missing are dropped
  (\<open>dropna=True\<close> is the default), the groups are in the order of their keys, numbers
  before texts, and a sum skips missing amounts.
\<close>

fun key_less :: "cell \<Rightarrow> cell \<Rightarrow> bool" where
  "key_less (Num a) (Num b) = (a < b)"
| "key_less (Num a) (Str t) = True"
| "key_less (Str s) (Str t) = (s < t)"
| "key_less _ _ = False"

fun add_to_group :: "cell \<Rightarrow> rat \<Rightarrow> (cell \<times> rat) list \<Rightarrow> (cell \<times> rat) list" where
  "add_to_group k v [] = [(k, v)]"
| "add_to_group k v ((k', t) # gs) =
     (if k = k' then (k', t + v) # gs
      else if key_less k k' then (k, v) # (k', t) # gs
      else (k', t) # add_to_group k v gs)"

fun groupby_sum :: "(cell \<times> cell) list \<Rightarrow> error + (cell \<times> rat) list" where
  "groupby_sum [] = Inr []"
| "groupby_sum ((k, a) # kas) =
     (case groupby_sum kas of
        Inl e \<Rightarrow> Inl e
      | Inr gs \<Rightarrow>
          (if k = Null then Inr gs
           else (case amount_value a of Inl e \<Rightarrow> Inl e | Inr v \<Rightarrow> Inr (add_to_group k v gs))))"

definition card_summary :: "table \<Rightarrow> error + (cell \<times> rat) list" where
  "card_summary filtered =
     (case column filtered ''card'' of
        Inl e \<Rightarrow> Inl e
      | Inr cards \<Rightarrow>
          (case column filtered ''amount'' of
             Inl e \<Rightarrow> Inl e
           | Inr amounts \<Rightarrow> groupby_sum (zip (map replace_empty cards) amounts)))"



subsection \<open>An example table\<close>

text \<open>
  Three records, as a session holds them after a reload: the first has neither a card
  nor a description, the third has the empty text as its card. \<open>shown\<close> is the
  identifiers of a filtered table with the warning.
\<close>

definition example_table :: table where
  "example_table = \<lparr>columns = expected, rows =
     [[''id'' \<mapsto> Str ''a'', ''date_jalali'' \<mapsto> Str ''1403-05-25'',
       ''date_gregorian'' \<mapsto> Str ''2024-08-15'', ''amount'' \<mapsto> Num 100,
       ''description'' \<mapsto> Null, ''card'' \<mapsto> Null],
      [''id'' \<mapsto> Str ''b'', ''date_jalali'' \<mapsto> Str ''1403-05-26'',
       ''date_gregorian'' \<mapsto> Str ''2024-08-16'', ''amount'' \<mapsto> Num 30,
       ''description'' \<mapsto> Str ''Fruit'', ''card'' \<mapsto> Str ''x''],
      [''id'' \<mapsto> Str ''c'', ''date_jalali'' \<mapsto> Str ''1403-05-27'',
       ''date_gregorian'' \<mapsto> Str ''2024-08-17'', ''amount'' \<mapsto> Num 7,
       ''description'' \<mapsto> Str ''bread'', ''card'' \<mapsto> Str '''']]\<rparr>"


subsection \<open>Invariants on the amount column\<close>






section \<open>Properties\<close>

subsection \<open>Frames and the calendar on examples\<close>










lemma jalali_to_gregorian_invalid: "jalali_to_gregorian True ''1403-13-40'' = Inl InvalidDateFormat"
  by code_simp




subsection \<open>Manual entry\<close>




subsection \<open>Import\<close>

lemma jalali_fails_import_record:
  "jalali_to_gregorian jd (py_str (csv_cell r ''date_jalali'')) = Inl e \<Longrightarrow>
   import_record numeric jd u r = Inl e"
  by (simp add: import_record_def)

lemma build_records_fails:
  "\<exists>r\<in>set rs. \<exists>e. jalali_to_gregorian jd (py_str (csv_cell r ''date_jalali'')) = Inl e \<Longrightarrow>
   \<exists>e. build_records numeric jd uids i rs = Inl e"
proof (induction rs arbitrary: i)
  case Nil
  then show ?case by simp
next
  case (Cons r rs)
  show ?case
  proof (cases "import_record numeric jd (uids i) r")
    case (Inl e)
    then show ?thesis by simp
  next
    case (Inr rec)
    then have "\<not> (\<exists>e. jalali_to_gregorian jd (py_str (csv_cell r ''date_jalali'')) = Inl e)"
      using jalali_fails_import_record [of jd r _ numeric "uids i"] by auto
    with Cons.prems have "\<exists>r\<in>set rs. \<exists>e. jalali_to_gregorian jd (py_str (csv_cell r ''date_jalali'')) = Inl e"
      by auto
    then obtain e where "build_records numeric jd uids (Suc i) rs = Inl e"
      using Cons.IH by blast
    with Inr show ?thesis by simp
  qed
qed

lemma rows_get_default:
  "rows (get_default c imp) =
   map (\<lambda>r. r(c \<mapsto> (if c \<in> set (columns imp) then csv_cell r c else Some []))) (rows imp)"
  by (simp add: get_default_def set_column_def)

lemma csv_cell_upd_other: "c \<noteq> c' \<Longrightarrow> csv_cell (r(c' \<mapsto> v)) c = csv_cell r c"
  by (simp add: csv_cell_def)

lemma import_merge_missing_date:
  "''date_jalali'' \<notin> set (columns imp) \<Longrightarrow>
   import_merge numeric jd uids df0 imp = Inl (MissingColumn ''date_jalali'')"
  by (simp add: import_merge_def needed_def)

lemma import_merge_missing_amount:
  "''date_jalali'' \<in> set (columns imp) \<Longrightarrow> ''amount'' \<notin> set (columns imp) \<Longrightarrow>
   import_merge numeric jd uids df0 imp = Inl (MissingColumn ''amount'')"
  by (simp add: import_merge_def needed_def)

lemma import_merge_present:
  "''date_jalali'' \<in> set (columns imp) \<Longrightarrow> ''amount'' \<in> set (columns imp) \<Longrightarrow>
   import_merge numeric jd uids df0 imp =
     (case build_records numeric jd uids 0
             (rows (get_default ''card'' (get_default ''description'' imp))) of
        Inl e \<Rightarrow> Inl e
      | Inr records \<Rightarrow> Inr (pd_concat df0 (DataFrame records)))"
  by (simp add: import_merge_def needed_def Let_def)

lemma import_merge_bad_row:
  assumes "''date_jalali'' \<in> set (columns imp)" "''amount'' \<in> set (columns imp)"
    and "\<exists>r\<in>set (rows imp). \<exists>e. jalali_to_gregorian jd (py_str (csv_cell r ''date_jalali'')) = Inl e"
  shows "\<exists>e. import_merge numeric jd uids df0 imp = Inl e"
proof -
  let ?rs = "rows (get_default ''card'' (get_default ''description'' imp))"
  from assms(3) obtain r e where r: "r \<in> set (rows imp)"
    and e: "jalali_to_gregorian jd (py_str (csv_cell r ''date_jalali'')) = Inl e" by blast
  define r' where "r' = (r(''description'' \<mapsto> (if ''description'' \<in> set (columns imp) then csv_cell r ''description'' else Some [])))"
  define r'' where "r'' = (r'(''card'' \<mapsto> (if ''card'' \<in> set (columns (get_default ''description'' imp)) then csv_cell r' ''card'' else Some [])))"
  have "r' \<in> set (rows (get_default ''description'' imp))"
    using r by (auto simp: rows_get_default r'_def)
  then have "r'' \<in> set ?rs"
    by (auto simp: rows_get_default [of "''card''"] r''_def)
  moreover have "csv_cell r'' ''date_jalali'' = csv_cell r ''date_jalali''"
    by (simp add: r''_def r'_def csv_cell_upd_other)
  ultimately have "\<exists>r\<in>set ?rs. \<exists>e. jalali_to_gregorian jd (py_str (csv_cell r ''date_jalali'')) = Inl e"
    using e by metis
  then obtain e' where "build_records numeric jd uids 0 ?rs = Inl e'"
    using build_records_fails by blast
  then show ?thesis using assms(1,2) by (simp add: import_merge_present)
qed


text \<open>
  C1. When a required column (\<open>date_jalali\<close>, \<open>amount\<close>) is absent from the
  uploaded file, or the date of one of its rows does not convert, the upload handler
  reports the failure and returns the session as it was: the table has no new row and
  nothing is written. A missing column is reported as \<open>MissingColumn\<close>.
\<close>

theorem import_all_or_nothing:
  assumes "''date_jalali'' \<notin> set (columns imp) \<or> ''amount'' \<notin> set (columns imp) \<or>
           (\<exists>r\<in>set (rows imp). \<exists>e. jalali_to_gregorian jd (py_str (csv_cell r ''date_jalali'')) = Inl e)"
  shows "\<exists>e. import_csv numeric jd uids df0 st imp = (st, Failure e) \<and>
             (''date_jalali'' \<notin> set (columns imp) \<longrightarrow> e = MissingColumn ''date_jalali'') \<and>
             (''date_jalali'' \<in> set (columns imp) \<and> ''amount'' \<notin> set (columns imp) \<longrightarrow>
                e = MissingColumn ''amount'')"
proof (cases "''date_jalali'' \<in> set (columns imp)")
  case False
  then show ?thesis by (simp add: import_csv_def import_merge_missing_date)
next
  case dj: True
  show ?thesis
  proof (cases "''amount'' \<in> set (columns imp)")
    case False
    with dj show ?thesis by (simp add: import_csv_def import_merge_missing_amount)
  next
    case True
    with dj assms obtain e where "import_merge numeric jd uids df0 imp = Inl e"
      using import_merge_bad_row by blast
    with dj True show ?thesis by (simp add: import_csv_def)
  qed
qed


theorem import_all_or_nothing_witness:
  "import_csv decimal True (\<lambda>i. ''u'') (read_data decimal None) (start_session decimal None)
     \<lparr>columns = [''date_jalali'', ''amount''],
      rows = [[''date_jalali'' \<mapsto> Some ''1403-05-25'', ''amount'' \<mapsto> Some ''1000''],
              [''date_jalali'' \<mapsto> Some ''1403-13-40'', ''amount'' \<mapsto> Some ''2000'']]\<rparr>
   = (start_session decimal None, Failure InvalidDateFormat)
   \<and> import_csv decimal True (\<lambda>i. ''u'') (read_data decimal None) (start_session decimal None)
     \<lparr>columns = [''date_jalali''],
      rows = [[''date_jalali'' \<mapsto> Some ''1403-05-25''],
              [''date_jalali'' \<mapsto> Some ''1403-05-26'']]\<rparr>
   = (start_session decimal None, Failure (MissingColumn ''amount''))"
proof -
  let ?imp1 = "\<lparr>columns = [''date_jalali'', ''amount''],
      rows = [[''date_jalali'' \<mapsto> Some ''1403-05-25'', ''amount'' \<mapsto> Some ''1000''],
              [''date_jalali'' \<mapsto> Some ''1403-13-40'', ''amount'' \<mapsto> Some ''2000'']]\<rparr> :: csv"
  let ?imp2 = "\<lparr>columns = [''date_jalali''],
      rows = [[''date_jalali'' \<mapsto> Some ''1403-05-25''],
              [''date_jalali'' \<mapsto> Some ''1403-05-26'']]\<rparr> :: csv"
  have bad: "\<exists>r\<in>set (rows ?imp1). \<exists>e.
      jalali_to_gregorian True (py_str (csv_cell r ''date_jalali'')) = Inl e"
    using jalali_to_gregorian_invalid by (simp add: csv_cell_def py_str_def)
  obtain e where e: "import_csv decimal True (\<lambda>i. ''u'') (read_data decimal None)
      (start_session decimal None) ?imp1 = (start_session decimal None, Failure e)"
    using import_all_or_nothing [of ?imp1 True decimal "\<lambda>i. ''u''" "read_data decimal None"
        "start_session decimal None"] bad by blast
  have "case import_merge decimal True (\<lambda>i. ''u'') (read_data decimal None) ?imp1 of
      Inl e' \<Rightarrow> e' = InvalidDateFormat | Inr t \<Rightarrow> False"
    by code_simp
  with e have 1: "import_csv decimal True (\<lambda>i. ''u'') (read_data decimal None)
      (start_session decimal None) ?imp1 = (start_session decimal None, Failure InvalidDateFormat)"
    by (simp add: import_csv_def split: sum.splits)
  have 2: "import_csv decimal True (\<lambda>i. ''u'') (read_data decimal None)
      (start_session decimal None) ?imp2 = (start_session decimal None, Failure (MissingColumn ''amount''))"
    using import_all_or_nothing [of ?imp2 True decimal "\<lambda>i. ''u''" "read_data decimal None"
        "start_session decimal None"] by auto
  from 1 2 show ?thesis by simp
qed

text \<open>
  C3, as the code has it. A row whose amount is not a number does not become a record
  with amount 0: \<open>pd.to_numeric\<close> gives NaN, NaN is truthy, so \<open>NaN or 0\<close> is NaN,
  and \<open>int\<close> of it raises. The import of the file is rejected and the session is
  as it was.
\<close>

theorem import_non_numeric_amount_rejected:
  "(case import_csv decimal True (\<lambda>i. ''u'') (session_df (start_session decimal None))
        (start_session decimal None)
        \<lparr>columns = [''date_jalali'', ''amount''],
         rows = [[''date_jalali'' \<mapsto> Some ''1403-05-25'', ''amount'' \<mapsto> Some ''abc'']]\<rparr> of
      (st', sig) \<Rightarrow> sig = Failure NaNToInteger \<and> rows (session_df st') = [] \<and> disk st' = None)
   \<and> decimal ''abc'' = None"
  by code_simp


subsection \<open>Load\<close>

lemma columns_fold_add_missing:
  "set (columns (fold add_missing cs df0)) = set (columns df0) \<union> set cs"
  by (induction cs arbitrary: df0) (auto simp: add_missing_def set_column_def)


lemma cells_frame_of_csv:
  "map (\<lambda>r. cell_of r c) (rows (frame_of_csv f)) = map (\<lambda>r. object_cell (csv_cell r c)) (rows f)"
  by (auto simp: frame_of_csv_def cell_of_def csv_cell_def object_cell_def split: option.splits)












subsection \<open>The amounts of the table\<close>

















subsection \<open>Date bounds\<close>








subsection \<open>Card and text filters\<close>
















subsection \<open>Per-card totals\<close>

text \<open>
  C2, as the code has it. The record with a missing card (amount 100) is in no group:
  the label replaces the empty text only, and \<open>groupby\<close> drops missing keys. The
  per-card totals are 30 and 7; the total is 137.
\<close>

theorem null_card_dropped_from_summary:
  "card_summary example_table = Inr [(Str ''x'', 30), (Str unspecified, 7)]
   \<and> total_spent example_table = Inr 137
   \<and> map (\<lambda>r. cell_of r ''card'') (rows example_table) = [Null, Str ''x'', Str []]
   \<and> map (\<lambda>r. cell_of r ''amount'') (rows example_table) = [Num 100, Num 30, Num 7]"
  by code_simp

subsection \<open>The calendar round trip\<close>

lemma walk_months_inverse:
  assumes "\<forall>m\<in>set ms. 0 < m" "i < length ms" "0 \<le> d" "d < ms ! i"
  shows "walk_months ms k (sum_list (take i ms) + d) = (k + int i, d)"
  using assms
proof (induction ms arbitrary: i k)
  case Nil
  then show ?case by simp
next
  case (Cons m ms)
  show ?case
  proof (cases i)
    case 0
    with Cons.prems show ?thesis by simp
  next
    case (Suc j)
    with Cons.prems have "j < length ms" "d < ms ! j" "\<forall>m\<in>set ms. 0 < m" by auto
    from Cons.IH [OF this(3) this(1) Cons.prems(3) this(2), of "k + 1"]
    have "walk_months ms (k + 1) (sum_list (take j ms) + d) = (k + 1 + int j, d)" .
    moreover have "0 \<le> sum_list (take j ms)"
      using \<open>\<forall>m\<in>set ms. 0 < m\<close>
      by (intro sum_list_nonneg) (auto dest!: in_set_takeD intro: less_imp_le)
    ultimately show ?thesis using Suc Cons.prems(3) by (simp add: algebra_simps)
  qed
qed

lemma walk_months_exhaust:
  assumes "\<forall>m\<in>set ms. 0 < m" "0 \<le> d"
  shows "walk_months ms k (sum_list ms + d) = (k + int (length ms), d)"
  using assms
proof (induction ms arbitrary: k)
  case Nil
  then show ?case by simp
next
  case (Cons m ms)
  then have "0 \<le> sum_list ms" by (intro sum_list_nonneg) (auto intro: less_imp_le)
  with Cons show ?case by (simp add: algebra_simps)
qed

lemma divmod_int_unique:
  fixes a b q r :: int
  assumes "a = b * q + r" "0 \<le> r" "r < b"
  shows "a div b = q \<and> a mod b = r"
  using int_div_pos_eq [OF assms] int_mod_pos_eq [OF assms] by simp

lemma upto_0_32: "[0..32::int] =
    [0, 1, 2, 3, 4, 5, 6, 7, 8, 9, 10, 11, 12, 13, 14, 15, 16, 17, 18, 19, 20,
     21, 22, 23, 24, 25, 26, 27, 28, 29, 30, 31, 32]"
  by code_simp

lemma int_cases_upto_32:
  fixes r :: int
  assumes "0 \<le> r" "r \<le> 32"
  shows "r \<in> set [0, 1, 2, 3, 4, 5, 6, 7, 8, 9, 10, 11, 12, 13, 14, 15, 16, 17, 18, 19, 20,
               21, 22, 23, 24, 25, 26, 27, 28, 29, 30, 31, 32]"
proof -
  have "r \<in> set [0..32]" using assms by simp
  then show ?thesis unfolding upto_0_32 .
qed

lemma j_isleap_cycle:
  assumes "0 \<le> r" "r \<le> 32"
  shows "j_isleap (979 + 33 * q + r) = (r mod 4 = 0 \<and> r < 32)"
proof -
  have "(979 + 33 * q + r) mod 33 = (if r < 11 then 22 + r else r - 11)"
  proof (cases "r < 11")
    case True
    have "(979 + 33 * q + r) mod 33 = 22 + r"
      by (rule int_mod_pos_eq [where q = "q + 29"]) (use assms True in auto)
    with True show ?thesis by simp
  next
    case False
    have "(979 + 33 * q + r) mod 33 = r - 11"
      by (rule int_mod_pos_eq [where q = "q + 30"]) (use assms False in auto)
    with False show ?thesis by simp
  qed
  then have "j_isleap (979 + 33 * q + r)
      = ((if r < 11 then 22 + r else r - 11) \<in> {1, 5, 9, 13, 17, 22, 26, 30})"
    by (simp only: j_isleap_def)
  also have "\<dots> = (r mod 4 = 0 \<and> r < 32)"
    using int_cases_upto_32 [OF assms] by (simp only: set_simps) (elim insertE emptyE; simp)
  finally show ?thesis .
qed

lemma j_year_split:
  fixes a b doy :: int
  assumes "0 \<le> b" "b < 4" "0 \<le> doy" "doy < 365 + (if b = 0 then 1 else 0)"
  defines "x \<equiv> 1461 * a + (if b = 0 then 0 else 365 * b + 1) + doy"
  shows "(if 366 \<le> x mod 1461
          then (4 * (x div 1461) + (x mod 1461 - 1) div 365, (x mod 1461 - 1) mod 365)
          else (4 * (x div 1461), x mod 1461)) = (4 * a + b, doy)"
proof (cases "b = 0")
  case True
  have "x div 1461 = a \<and> x mod 1461 = doy"
    by (rule divmod_int_unique) (use assms True in \<open>auto simp: x_def\<close>)
  with assms True show ?thesis by simp
next
  case False
  have 1: "x div 1461 = a \<and> x mod 1461 = 365 * b + 1 + doy"
    by (rule divmod_int_unique) (use assms False in \<open>auto simp: x_def\<close>)
  have 2: "(365 * b + doy) div 365 = b \<and> (365 * b + doy) mod 365 = doy"
    by (rule divmod_int_unique) (use assms False in auto)
  from assms False have "366 \<le> 365 * b + 1 + doy" by simp
  with 1 2 show ?thesis by simp
qed

lemma int_cases_1_12:
  fixes m :: int
  assumes "1 \<le> m" "m \<le> 12"
  shows "m \<in> set [1, 2, 3, 4, 5, 6, 7, 8, 9, 10, 11, 12]"
proof -
  have "[1..12::int] = [1, 2, 3, 4, 5, 6, 7, 8, 9, 10, 11, 12]" by code_simp
  moreover have "m \<in> set [1..12]" using assms by simp
  ultimately show ?thesis by simp
qed

lemma j_month_walk:
  fixes m d :: int
  assumes "1 \<le> m" "m \<le> 12" "1 \<le> d"
    and "d \<le> (if m \<le> 6 then 31 else if m \<le> 11 then 30 else if leap then 30 else 29)"
  defines "doy \<equiv> sum_list (take (nat (m - 1)) j_days_in_month) + (d - 1)"
  shows "walk_months (take 11 j_days_in_month) 0 doy = (m - 1, d - 1)"
    and "0 \<le> doy" and "doy < 365 + (if leap then 1 else 0)"
  using int_cases_1_12 [OF assms(1,2)] assms(3,4) unfolding doy_def
  by (simp_all only: set_simps)
    (elim insertE emptyE; auto simp add: j_days_in_month_def split: if_splits)+

lemma j_of_day_no_inverse:
  assumes "j_valid (y, m, d)"
  shows "j_of_day_no (j_day_no (y, m, d)) = (y, m, d)"
proof -
  define jy where "jy = y - 979"
  define q where "q = jy div 33"
  define r where "r = jy mod 33"
  define a where "a = r div 4"
  define b where "b = r mod 4"
  define doy where "doy = sum_list (take (nat (m - 1)) j_days_in_month) + (d - 1)"
  define x where "x = 1461 * a + (if b = 0 then 0 else 365 * b + 1) + doy"
  have jy: "jy = 33 * q + r" and r: "0 \<le> r" "r \<le> 32"
    by (simp_all add: q_def r_def)
  have rab: "r = 4 * a + b" and b: "0 \<le> b" "b < 4"
    by (simp_all add: a_def b_def)
  have a: "0 \<le> a" "a \<le> 8" using r rab b by auto
  have y: "y = 979 + 33 * q + r" using jy by (simp add: jy_def)
  have leap: "j_isleap y = (b = 0 \<and> r < 32)"
    unfolding y using j_isleap_cycle [OF r] by (simp add: b_def)
  from assms have v: "1 \<le> m" "m \<le> 12" "1 \<le> d"
    "d \<le> (if m \<le> 6 then 31 else if m \<le> 11 then 30 else if j_isleap y then 30 else 29)"
    by (simp_all add: j_valid_def)
  note w = j_month_walk [OF v, folded doy_def]
  have doy: "0 \<le> doy" "doy < 365 + (if b = 0 then 1 else 0)" "b = 0 \<and> r = 32 \<longrightarrow> doy < 365"
    using w(2,3) leap by (auto split: if_splits)
  have r34: "(r + 3) div 4 = a + (if b = 0 then 0 else 1)"
  proof (cases "b = 0")
    case True
    have "(r + 3) div 4 = a" by (rule int_div_pos_eq [where r = 3]) (use rab True in auto)
    with True show ?thesis by simp
  next
    case False
    have "(r + 3) div 4 = a + 1" by (rule int_div_pos_eq [where r = "b - 1"]) (use rab False b in auto)
    with False show ?thesis by simp
  qed
  have n1: "j_day_no (y, m, d) = 365 * jy + q * 8 + (r + 3) div 4 + doy"
    unfolding q_def r_def by (simp add: j_day_no_def Let_def jy_def doy_def)
  have n: "j_day_no (y, m, d) = 12053 * q + x"
  proof -
    have "(4 * a + b + 3) div 4 = a + (if b = 0 then 0 else 1)" using r34 rab by simp
    then show ?thesis unfolding n1 x_def jy rab by simp
  qed
  have a7: "b \<noteq> 0 \<longrightarrow> a \<le> 7" "b = 0 \<and> a = 8 \<longrightarrow> r = 32"
    using r rab b by auto
  have xb: "0 \<le> x" "x < 12053"
    using a a7 b doy by (auto simp: x_def split: if_splits)
  have dm: "(12053 * q + x) div 12053 = q \<and> (12053 * q + x) mod 12053 = x"
    by (rule divmod_int_unique) (use xb in auto)
  note ys = j_year_split [OF b doy(1,2), of a, folded x_def]
  have "(if 366 \<le> x mod 1461
          then (979 + 33 * q + 4 * (x div 1461) + (x mod 1461 - 1) div 365, (x mod 1461 - 1) mod 365)
          else (979 + 33 * q + 4 * (x div 1461), x mod 1461)) = (y, doy)"
    using ys rab y by (auto split: if_splits)
  then show ?thesis
    using w(1) xb by (simp add: j_of_day_no_def n Let_def split: if_splits)
qed

lemma g_year_start_cycle:
  fixes q c a b :: int
  assumes "0 \<le> c" "c \<le> 3" "0 \<le> a" "a \<le> 24" "0 \<le> b" "b \<le> 3"
  shows "g_year_start (400 * q + 100 * c + 4 * a + b)
           = 146097 * q + 36524 * c + 1461 * a + 365 * b + g_offset c a b"
    and "g_isleap (400 * q + 100 * c + 4 * a + b) = (b = 0 \<and> (a \<noteq> 0 \<or> c = 0))"
proof -
  let ?x = "400 * q + 100 * c + 4 * a + b"
  have d4: "(?x + 3) div 4 = 100 * q + 25 * c + a + (if 0 < b then 1 else 0)"
  proof (cases "0 < b")
    case True
    have "(?x + 3) div 4 = 100 * q + 25 * c + a + 1"
      by (rule int_div_pos_eq [where r = "b - 1"]) (use assms True in auto)
    with True show ?thesis by simp
  next
    case False
    have "(?x + 3) div 4 = 100 * q + 25 * c + a"
      by (rule int_div_pos_eq [where r = 3]) (use assms False in auto)
    with False show ?thesis by simp
  qed
  have d100: "(?x + 99) div 100 = 4 * q + c + (if 0 < 4 * a + b then 1 else 0)"
  proof (cases "0 < 4 * a + b")
    case True
    have "(?x + 99) div 100 = 4 * q + c + 1"
      by (rule int_div_pos_eq [where r = "4 * a + b - 1"]) (use assms True in auto)
    with True show ?thesis by simp
  next
    case False
    have "(?x + 99) div 100 = 4 * q + c"
      by (rule int_div_pos_eq [where r = 99]) (use assms False in auto)
    with False show ?thesis by simp
  qed
  have d400: "(?x + 399) div 400 = q + (if 0 < 100 * c + 4 * a + b then 1 else 0)"
  proof (cases "0 < 100 * c + 4 * a + b")
    case True
    have "(?x + 399) div 400 = q + 1"
      by (rule int_div_pos_eq [where r = "100 * c + 4 * a + b - 1"]) (use assms True in auto)
    with True show ?thesis by simp
  next
    case False
    have "(?x + 399) div 400 = q"
      by (rule int_div_pos_eq [where r = 399]) (use assms False in auto)
    with False show ?thesis by simp
  qed
  show "g_year_start ?x = 146097 * q + 36524 * c + 1461 * a + 365 * b + g_offset c a b"
    unfolding g_year_start_def d4 d100 d400 g_offset_def by simp
  have m4: "?x mod 4 = b"
    by (rule int_mod_pos_eq [where q = "100 * q + 25 * c + a"]) (use assms in auto)
  have m100: "?x mod 100 = 4 * a + b"
    by (rule int_mod_pos_eq [where q = "4 * q + c"]) (use assms in auto)
  have m400: "?x mod 400 = 100 * c + 4 * a + b"
    by (rule int_mod_pos_eq [where q = q]) (use assms in auto)
  have z: "(100 * c + 4 * a + b = 0) = (c = 0 \<and> a = 0 \<and> b = 0)"
    "(4 * a + b = 0) = (a = 0 \<and> b = 0)"
    using assms by arith+
  show "g_isleap ?x = (b = 0 \<and> (a \<noteq> 0 \<or> c = 0))"
    unfolding g_isleap_def m4 m100 m400 z by auto
qed

lemma g_year_of_days:
  fixes n1 gy0 :: int
  assumes "0 \<le> n1" "n1 < 146097"
  shows "\<exists>c a b doy leap.
    (case g_century gy0 n1 of (gy1, n2, leap1) \<Rightarrow> g_year gy1 n2 leap1)
       = (gy0 + (100 * c + 4 * a + b), doy, leap) \<and>
    0 \<le> c \<and> c \<le> 3 \<and> 0 \<le> a \<and> a \<le> 24 \<and> 0 \<le> b \<and> b \<le> 3 \<and>
    n1 = 36524 * c + 1461 * a + 365 * b + g_offset c a b + doy \<and>
    0 \<le> doy \<and> doy < 365 + (if leap then 1 else 0) \<and>
    leap = (b = 0 \<and> (a \<noteq> 0 \<or> c = 0))"
proof (cases "36525 \<le> n1")
  case False
  define a where "a = n1 div 1461"
  define r where "r = n1 mod 1461"
  have n: "n1 = 1461 * a + r" and r: "0 \<le> r" "r < 1461" by (simp_all add: a_def r_def)
  have a: "0 \<le> a" "a \<le> 24" using n r assms False by auto
  show ?thesis
  proof (cases "366 \<le> r")
    case True
    define b where "b = (r - 1) div 365"
    define doy where "doy = (r - 1) mod 365"
    have rr: "r - 1 = 365 * b + doy" and doy: "0 \<le> doy" "doy < 365"
      by (simp_all add: b_def doy_def)
    have b: "1 \<le> b" "b \<le> 3" using rr doy r True by auto
    have "(case g_century gy0 n1 of (gy1, n2, leap1) \<Rightarrow> g_year gy1 n2 leap1)
        = (gy0 + (100 * 0 + 4 * a + b), doy, False)"
      using False True by (simp add: g_century_def g_year_def Let_def a_def r_def b_def doy_def)
    moreover have "n1 = 36524 * 0 + 1461 * a + 365 * b + g_offset 0 a b + doy"
      using n rr a b by (simp add: g_offset_def)
    ultimately show ?thesis using a b doy
      by (intro exI [of _ 0] exI [of _ a] exI [of _ b] exI [of _ doy] exI [of _ False]) auto
  next
    case nl: False
    have "(case g_century gy0 n1 of (gy1, n2, leap1) \<Rightarrow> g_year gy1 n2 leap1)
        = (gy0 + (100 * 0 + 4 * a + 0), r, True)"
      using False nl by (simp add: g_century_def g_year_def Let_def a_def r_def)
    moreover have "n1 = 36524 * 0 + 1461 * a + 365 * 0 + g_offset 0 a 0 + r"
      using n a by (simp add: g_offset_def)
    ultimately show ?thesis using a r nl
      by (intro exI [of _ 0] exI [of _ a] exI [of _ 0] exI [of _ r] exI [of _ True]) auto
  qed
next
  case True
  define c where "c = (n1 - 1) div 36524"
  define r where "r = (n1 - 1) mod 36524"
  have n: "n1 - 1 = 36524 * c + r" and r: "0 \<le> r" "r < 36524" by (simp_all add: c_def r_def)
  have c: "1 \<le> c" "c \<le> 3" using n r assms True by auto
  show ?thesis
  proof (cases "365 \<le> r")
    case False
    have dm: "r div 1461 = 0" "r mod 1461 = r" using r False by simp_all
    have "(case g_century gy0 n1 of (gy1, n2, leap1) \<Rightarrow> g_year gy1 n2 leap1)
        = (gy0 + (100 * c + 4 * 0 + 0), r, False)"
      using True False dm
      by (simp add: g_century_def g_year_def Let_def c_def [symmetric] r_def [symmetric])
    moreover have "n1 = 36524 * c + 1461 * 0 + 365 * 0 + g_offset c 0 0 + r"
      using n c by (simp add: g_offset_def)
    ultimately show ?thesis using c r False
      by (intro exI [of _ c] exI [of _ 0] exI [of _ 0] exI [of _ r] exI [of _ False]) auto
  next
    case big: True
    define a where "a = (r + 1) div 1461"
    define rr where "rr = (r + 1) mod 1461"
    have n2: "r + 1 = 1461 * a + rr" and rr: "0 \<le> rr" "rr < 1461" by (simp_all add: a_def rr_def)
    have a: "0 \<le> a" "a \<le> 24" using n2 rr r by auto
    have cen: "g_century gy0 n1 = (gy0 + 100 * c, r + 1, True)"
      using True big by (simp add: g_century_def Let_def c_def r_def)
    show ?thesis
    proof (cases "366 \<le> rr")
      case True
      define b where "b = (rr - 1) div 365"
      define doy where "doy = (rr - 1) mod 365"
      have r3: "rr - 1 = 365 * b + doy" and doy: "0 \<le> doy" "doy < 365"
        by (simp_all add: b_def doy_def)
      have b: "1 \<le> b" "b \<le> 3" using r3 doy rr True by auto
      have "(case g_century gy0 n1 of (gy1, n2, leap1) \<Rightarrow> g_year gy1 n2 leap1)
          = (gy0 + (100 * c + 4 * a + b), doy, False)"
        using True by (simp add: cen g_year_def Let_def a_def rr_def b_def doy_def)
      moreover have "n1 = 36524 * c + 1461 * a + 365 * b + g_offset c a b + doy"
        using n n2 r3 a b c by (simp add: g_offset_def)
      ultimately show ?thesis using a b c doy
        by (intro exI [of _ c] exI [of _ a] exI [of _ b] exI [of _ doy] exI [of _ False]) auto
    next
      case False
      have a1: "1 \<le> a" using n2 False big a by auto
      have "(case g_century gy0 n1 of (gy1, n2, leap1) \<Rightarrow> g_year gy1 n2 leap1)
          = (gy0 + (100 * c + 4 * a + 0), rr, True)"
        using False by (simp add: cen g_year_def Let_def a_def rr_def)
      moreover have "n1 = 36524 * c + 1461 * a + 365 * 0 + g_offset c a 0 + rr"
        using n n2 a1 c by (simp add: g_offset_def)
      ultimately show ?thesis using a a1 c rr False
        by (intro exI [of _ c] exI [of _ a] exI [of _ 0] exI [of _ rr] exI [of _ True]) auto
    qed
  qed
qed

lemma walk_months_sound:
  assumes "\<forall>m\<in>set ms. 0 < m" "0 \<le> n" "n < sum_list ms" "walk_months ms k n = (i, d)"
  shows "k \<le> i \<and> i < k + int (length ms) \<and> sum_list (take (nat (i - k)) ms) + d = n \<and> 0 \<le> d"
  using assms
proof (induction ms arbitrary: k n)
  case Nil
  then show ?case by simp
next
  case (Cons m ms)
  show ?case
  proof (cases "m \<le> n")
    case False
    with Cons.prems show ?thesis by simp
  next
    case True
    with Cons.prems have w: "walk_months ms (k + 1) (n - m) = (i, d)"
      and p: "\<forall>m\<in>set ms. 0 < m" "0 \<le> n - m" "n - m < sum_list ms"
      by auto
    from Cons.IH [OF p w] have ih: "k + 1 \<le> i" "i < k + 1 + int (length ms)"
      "sum_list (take (nat (i - (k + 1))) ms) + d = n - m" "0 \<le> d" by auto
    from ih(1) have "nat (i - k) = Suc (nat (i - (k + 1)))" by simp
    with ih show ?thesis by simp
  qed
qed

lemma int_cases_0_11:
  fixes i :: int
  assumes "0 \<le> i" "i < 12"
  shows "i \<in> set [0, 1, 2, 3, 4, 5, 6, 7, 8, 9, 10, 11]"
proof -
  have "[0..11::int] = [0, 1, 2, 3, 4, 5, 6, 7, 8, 9, 10, 11]" by code_simp
  moreover have "i \<in> set [0..11]" using assms by simp
  ultimately show ?thesis by simp
qed

lemma g_take_leap:
  fixes i :: int
  assumes "0 \<le> i" "i < 12"
  shows "sum_list (take (nat i) (g_days_in_month[1 := (if leap then 29 else 28)]))
    = sum_list (take (nat i) g_days_in_month) + (if 1 < i \<and> leap then 1 else 0)"
  using int_cases_0_11 [OF assms]
  by (simp only: set_simps) (elim insertE emptyE; simp add: g_days_in_month_def)

lemma g_month_walk:
  assumes "0 \<le> doy" "doy < 365 + (if leap then 1 else 0)"
    and "walk_months (g_days_in_month[1 := (if leap then 29 else 28)]) 0 doy = (i, d)"
  shows "sum_list (take (nat i) g_days_in_month) + (if 1 < i \<and> leap then 1 else 0) + d = doy"
proof -
  let ?ms = "g_days_in_month[1 := (if leap then 29 else 28)]"
  have pos: "\<forall>m\<in>set ?ms. 0 < m" by (simp add: g_days_in_month_def)
  have sum: "sum_list ?ms = 365 + (if leap then 1 else 0)" by (simp add: g_days_in_month_def)
  have len: "length ?ms = 12" by (simp add: g_days_in_month_def)
  from walk_months_sound [OF pos assms(1) _ assms(3)] assms(2) sum len
  have i: "0 \<le> i" "i < 12" and s: "sum_list (take (nat i) ?ms) + d = doy" by auto
  from s g_take_leap [OF i, of leap] show ?thesis by simp
qed

lemma g_day_no_inverse: "g_day_no (g_of_day_no n0) = n0"
proof -
  define q where "q = n0 div 146097"
  define n1 where "n1 = n0 mod 146097"
  have n0: "n0 = 146097 * q + n1" and n1: "0 \<le> n1" "n1 < 146097"
    by (simp_all add: q_def n1_def)
  from g_year_of_days [OF n1, of "1600 + 400 * q"] obtain c a b doy leap where
    yr: "(case g_century (1600 + 400 * q) n1 of (gy1, n2, leap1) \<Rightarrow> g_year gy1 n2 leap1)
       = (1600 + 400 * q + (100 * c + 4 * a + b), doy, leap)"
    and bounds: "0 \<le> c" "c \<le> 3" "0 \<le> a" "a \<le> 24" "0 \<le> b" "b \<le> 3"
    and sum: "n1 = 36524 * c + 1461 * a + 365 * b + g_offset c a b + doy"
    and doy: "0 \<le> doy" "doy < 365 + (if leap then 1 else 0)"
    and leap: "leap = (b = 0 \<and> (a \<noteq> 0 \<or> c = 0))"
    by blast
  obtain i d where w: "walk_months (g_days_in_month[1 := (if leap then 29 else 28)]) 0 doy = (i, d)"
    by (cases "walk_months (g_days_in_month[1 := (if leap then 29 else 28)]) 0 doy") auto
  have g: "g_of_day_no n0 = (1600 + 400 * q + (100 * c + 4 * a + b), i + 1, d + 1)"
  proof -
    obtain gy1 n2 leap1 where cen: "g_century (1600 + 400 * q) n1 = (gy1, n2, leap1)"
      by (cases "g_century (1600 + 400 * q) n1") auto
    with yr have "g_year gy1 n2 leap1 = (1600 + 400 * q + (100 * c + 4 * a + b), doy, leap)"
      by simp
    with cen w show ?thesis
      unfolding g_of_day_no_def q_def [symmetric] n1_def [symmetric] by simp
  qed
  have m: "sum_list (take (nat i) g_days_in_month) + (if 1 < i \<and> leap then 1 else 0) + d = doy"
    using doy w by (rule g_month_walk)
  have ys: "g_year_start (400 * q + 100 * c + 4 * a + b)
           = 146097 * q + 36524 * c + 1461 * a + 365 * b + g_offset c a b"
    and lp: "g_isleap (400 * q + 100 * c + 4 * a + b) = leap"
    using g_year_start_cycle [OF bounds, of q] leap by simp_all
  have "g_day_no (1600 + 400 * q + (100 * c + 4 * a + b), i + 1, d + 1)
      = g_year_start (400 * q + 100 * c + 4 * a + b)
        + sum_list (take (nat i) g_days_in_month)
        + (if 1 < i \<and> g_isleap (400 * q + 100 * c + 4 * a + b) then 1 else 0) + d"
    by (simp add: g_day_no_def g_year_start_def Let_def algebra_simps)
  also have "\<dots> = n0" unfolding ys lp n0 sum using m by simp
  finally show ?thesis unfolding g .
qed

lemma fromgregorian_togregorian:
  "j_valid (y, m, d) \<Longrightarrow> fromgregorian (togregorian (y, m, d)) = (y, m, d)"
  by (simp add: fromgregorian_def togregorian_def g_day_no_inverse j_of_day_no_inverse)

lemma digit_val_char:
  assumes "digit_val c = Some v"
  shows "0 \<le> v" "v \<le> 9" "digit_char v = c"
proof -
  from assms have c: "CHR ''0'' \<le> c" "c \<le> CHR ''9''" and v: "v = of_char c - 48"
    by (auto simp: digit_val_def split: if_splits)
  from c have n: "48 \<le> (of_char c :: nat)" "(of_char c :: nat) \<le> 57"
    by (simp_all add: less_eq_char_def)
  have i: "(of_char c :: int) = int (of_char c)" by (simp add: of_nat_of_char)
  from n i v show "0 \<le> v" "v \<le> 9" by linarith+
  from v show "digit_char v = c" by (simp add: digit_char_def)
qed

lemma digits_val_2:
  assumes "digits_val 0 [c1, c2] = Some n"
  shows "pad2 n = [c1, c2]" "0 \<le> n" "n < 100"
proof -
  from assms obtain v1 v2 where v: "digit_val c1 = Some v1" "digit_val c2 = Some v2"
    and n: "n = 10 * v1 + v2"
    by (auto split: option.splits)
  note d1 = digit_val_char [OF v(1)] and d2 = digit_val_char [OF v(2)]
  have a: "n div 10 = v1 \<and> n mod 10 = v2"
    by (rule divmod_int_unique) (use n d2 in auto)
  have b: "v1 mod 10 = v1" using d1 by simp
  from a b d1 d2 show "pad2 n = [c1, c2]" by (simp add: pad2_def)
  from n d1 d2 show "0 \<le> n" "n < 100" by auto
qed

lemma digits_val_4:
  assumes "digits_val 0 [c1, c2, c3, c4] = Some n"
  shows "pad4 n = [c1, c2, c3, c4]"
proof -
  from assms obtain v1 v2 v3 v4 where v: "digit_val c1 = Some v1" "digit_val c2 = Some v2"
      "digit_val c3 = Some v3" "digit_val c4 = Some v4"
    and n: "n = 10 * (10 * (10 * v1 + v2) + v3) + v4"
    by (auto split: option.splits)
  note d1 = digit_val_char [OF v(1)] and d2 = digit_val_char [OF v(2)]
    and d3 = digit_val_char [OF v(3)] and d4 = digit_val_char [OF v(4)]
  have a: "n div 100 = 10 * v1 + v2 \<and> n mod 100 = 10 * v3 + v4"
    by (rule divmod_int_unique) (use n d3 d4 in auto)
  have b: "(10 * v1 + v2) div 10 = v1 \<and> (10 * v1 + v2) mod 10 = v2"
    by (rule divmod_int_unique) (use d2 in auto)
  have c: "n div 10 = 10 * (10 * v1 + v2) + v3 \<and> n mod 10 = v4"
    by (rule divmod_int_unique) (use n d4 in auto)
  have d: "(10 * (10 * v1 + v2) + v3) mod 10 = v3"
    by (rule int_mod_pos_eq [where q = "10 * v1 + v2"]) (use d3 in auto)
  have e: "v1 mod 10 = v1" using d1 by simp
  from a b c d e d1 d2 d3 d4 show ?thesis by (simp add: pad4_def pad2_def)
qed

lemma length_10_cases:
  assumes "length s = 10"
  obtains c0 c1 c2 c3 c4 c5 c6 c7 c8 c9 where "s = [c0, c1, c2, c3, c4, c5, c6, c7, c8, c9]"
proof -
  from assms have "length s = Suc (Suc (Suc (Suc (Suc (Suc (Suc (Suc (Suc (Suc 0)))))))))"
    by simp
  then show ?thesis using that by (auto simp: length_Suc_conv)
qed

lemma isoformat_parse_iso:
  assumes "parse_iso s = Some (y, m, d)"
  shows "isoformat (y, m, d) = s"
proof -
  from assms have len: "length s = 10"
    by (auto simp: parse_iso_def split: if_splits)
  then obtain c0 c1 c2 c3 c4 c5 c6 c7 c8 c9 where s: "s = [c0, c1, c2, c3, c4, c5, c6, c7, c8, c9]"
    by (rule length_10_cases)
  from assms have sep: "c4 = CHR ''-''" "c7 = CHR ''-''"
    and y: "digits_val 0 [c0, c1, c2, c3] = Some y"
    and m: "digits_val 0 [c5, c6] = Some m"
    and d: "digits_val 0 [c8, c9] = Some d"
    unfolding s parse_iso_def by (simp_all split: if_splits option.splits)
  from digits_val_4 [OF y] digits_val_2(1) [OF m] digits_val_2(1) [OF d] sep
  show ?thesis by (simp add: isoformat_def s)
qed

text \<open>
  C8. Whenever \<open>jalali_to_gregorian\<close> accepts a text, that is, a \<open>YYYY-MM-DD\<close> text
  of a valid Jalali date, \<open>gregorian_to_jalali\<close> of its result is the text itself.
\<close>

theorem calendar_round_trip:
  assumes "jalali_to_gregorian jdatetime s = Inr g"
  shows "gregorian_to_jalali jdatetime g = Inr s"
proof -
  from assms have jd: "jdatetime"
    by (auto simp: jalali_to_gregorian_def ensure_jdatetime_def split: if_splits)
  with assms obtain j where j: "fromisoformat s = Some j" and g: "g = togregorian j"
    by (auto simp: jalali_to_gregorian_def ensure_jdatetime_def split: option.splits)
  obtain y m d where ymd: "j = (y, m, d)" by (cases j) auto
  from j ymd have p: "parse_iso s = Some (y, m, d)" and v: "j_valid (y, m, d)"
    by (auto simp: fromisoformat_def split: option.splits if_splits)
  have "fromgregorian g = (y, m, d)"
    unfolding g ymd using v by (rule fromgregorian_togregorian)
  with jd isoformat_parse_iso [OF p] show ?thesis
    by (simp add: gregorian_to_jalali_def ensure_jdatetime_def)
qed

theorem calendar_round_trip_witness:
  "jalali_to_gregorian True ''1403-05-25'' = Inr (2024, 8, 15)
   \<and> gregorian_to_jalali True (2024, 8, 15) = Inr ''1403-05-25''
   \<and> jalali_to_gregorian True ''1399-12-30'' = Inr (2021, 3, 20)
   \<and> gregorian_to_jalali True (2021, 3, 20) = Inr ''1399-12-30''"
proof -
  have a: "jalali_to_gregorian True ''1403-05-25'' = Inr (2024, 8, 15)" by code_simp
  have b: "jalali_to_gregorian True ''1399-12-30'' = Inr (2021, 3, 20)" by code_simp
  from a b calendar_round_trip [OF a] calendar_round_trip [OF b] show ?thesis by simp
qed

end
